theory Spec2Isabelle
  imports Main "HOL-Library.Char_ord" "HOL-Library.List_Lexorder" "HOL-Library.Sublist"
begin

section \<open>Python strings and builtins used by the scripts\<close>

text \<open>
  A Python \<open>str\<close> is modelled as a \<open>string\<close> (a list of \<open>char\<close>): one \<open>char\<close> per
  code point, for the code points below 256. Strings are ordered lexicographically by
  code point, as Python compares them.

  The exceptions the modelled functions can raise are values of \<open>error\<close>; a function that
  may raise returns \<open>error + 'a\<close>, with \<open>Inl\<close> for the exception.
\<close>

datatype error = ValueError

abbreviation LF :: char where "LF \<equiv> CHR 0x0A"
abbreviation CR :: char where "CR \<equiv> CHR 0x0D"

text \<open>
  \<open>str.isspace\<close> for one character, which is also what \<open>str.strip()\<close> removes and what
  the regular expression class \<open>\s\<close> matches on a \<open>str\<close> pattern: tab, line feed, vertical
  tab, form feed, carriage return, the separators 0x1C to 0x1F, space, next line (0x85)
  and no-break space (0xA0).
\<close>

definition is_space :: "char \<Rightarrow> bool" where
  "is_space c = (c \<in> set [CHR 0x09, CHR 0x0A, CHR 0x0B, CHR 0x0C, CHR 0x0D,
       CHR 0x1C, CHR 0x1D, CHR 0x1E, CHR 0x1F, CHR 0x20, CHR 0x85, CHR 0xA0])"

text \<open>The decimal digits: below code point 256 only \<open>0\<close> to \<open>9\<close> (\<open>\d\<close>, and what \<open>int()\<close> reads).\<close>

definition is_digit :: "char \<Rightarrow> bool" where
  "is_digit c = (CHR ''0'' \<le> c \<and> c \<le> CHR ''9'')"

definition digit_val :: "char \<Rightarrow> int" where
  "digit_val c = of_char c - 48"

definition str_lstrip :: "string \<Rightarrow> string" where
  "str_lstrip s = dropWhile is_space s"

definition str_rstrip :: "string \<Rightarrow> string" where
  "str_rstrip s = rev (dropWhile is_space (rev s))"

text \<open>\<open>s.strip()\<close>\<close>

definition str_strip :: "string \<Rightarrow> string" where
  "str_strip s = str_rstrip (str_lstrip s)"

text \<open>\<open>s.rstrip("\n")\<close>: every trailing line feed is removed.\<close>

definition rstrip_newline :: "string \<Rightarrow> string" where
  "rstrip_newline s = rev (dropWhile (\<lambda>c. c = LF) (rev s))"

text \<open>
  \<open>s.split(sep)\<close> for a separator of one character: the pieces between the separators,
  empty pieces included, so the result is never empty (\<open>"".split(".") == [""]\<close>).
\<close>

fun split_from :: "char \<Rightarrow> string \<Rightarrow> string \<Rightarrow> string list" where
  "split_from sep cur [] = [cur]"
| "split_from sep cur (c # cs) =
     (if c = sep then cur # split_from sep [] cs else split_from sep (cur @ [c]) cs)"

definition str_split :: "string \<Rightarrow> char \<Rightarrow> string list" where
  "str_split s sep = split_from sep [] s"

text \<open>
  \<open>int(s)\<close> on a string, base 10: surrounding whitespace is skipped, one sign is allowed,
  then come decimal digits, where single underscores may stand between two digits.
  Everything else raises \<open>ValueError\<close>. The whitespace \<open>int\<close> skips is narrower than
  \<open>str.isspace\<close>: tab, line feed, vertical tab, form feed, carriage return and space, and
  beyond ASCII next line (0x85) and no-break space (0xA0); the separators 0x1C to 0x1F
  are not skipped. The interpreter's configurable limit on the number of digits (4300
  by default in recent versions) is not modelled.
\<close>

definition is_int_space :: "char \<Rightarrow> bool" where
  "is_int_space c = (c \<in> set [CHR 0x09, CHR 0x0A, CHR 0x0B, CHR 0x0C, CHR 0x0D,
       CHR 0x20, CHR 0x85, CHR 0xA0])"

fun int_digits_from :: "int \<Rightarrow> string \<Rightarrow> error + int" where
  "int_digits_from acc [] = Inr acc"
| "int_digits_from acc [c] =
     (if is_digit c then Inr (10 * acc + digit_val c) else Inl ValueError)"
| "int_digits_from acc (c # d # ds) =
     (if is_digit c then int_digits_from (10 * acc + digit_val c) (d # ds)
      else if c = CHR ''_'' \<and> is_digit d then int_digits_from (10 * acc + digit_val d) ds
      else Inl ValueError)"

definition int_digits :: "string \<Rightarrow> error + int" where
  "int_digits s =
     (case s of
        [] \<Rightarrow> Inl ValueError
      | c # cs \<Rightarrow> if is_digit c then int_digits_from (digit_val c) cs else Inl ValueError)"

definition py_int :: "string \<Rightarrow> error + int" where
  "py_int s =
     (case rev (dropWhile is_int_space (rev (dropWhile is_int_space s))) of
        [] \<Rightarrow> Inl ValueError
      | c # cs \<Rightarrow>
          if c = CHR ''-'' then
            (case int_digits cs of Inl e \<Rightarrow> Inl e | Inr n \<Rightarrow> Inr (- n))
          else if c = CHR ''+'' then int_digits cs
          else int_digits (c # cs))"

text \<open>\<open>[int(x) for x in parts]\<close>: the first part that does not parse raises.\<close>

fun int_each :: "string list \<Rightarrow> error + int list" where
  "int_each [] = Inr []"
| "int_each (x # xs) =
     (case py_int x of
        Inl e \<Rightarrow> Inl e
      | Inr n \<Rightarrow> (case int_each xs of Inl e \<Rightarrow> Inl e | Inr ns \<Rightarrow> Inr (n # ns)))"

text \<open>
  \<open>bin(k)\<close>: the binary digits of the absolute value, most significant first, after
  \<open>0b\<close>, and after a minus sign when \<open>k\<close> is negative.
\<close>

fun bin_digits :: "nat \<Rightarrow> string" where
  "bin_digits n =
     (if n < 2 then [if n = 0 then CHR ''0'' else CHR ''1'']
      else bin_digits (n div 2) @ [if n mod 2 = 0 then CHR ''0'' else CHR ''1''])"

declare bin_digits.simps [simp del]

definition py_bin :: "int \<Rightarrow> string" where
  "py_bin k = (if k < 0 then ''-0b'' else ''0b'') @ bin_digits (nat \<bar>k\<bar>)"

text \<open>\<open>s.count(c)\<close> for a needle of one character.\<close>

definition str_count :: "string \<Rightarrow> char \<Rightarrow> int" where
  "str_count s c = int (length (filter (\<lambda>x. x = c) s))"

section \<open>The wildcard mask converter\<close>

text \<open>
  \<open>wildcard_to_prefixlen\<close> (the same text in the extraction script and in
  \<open>gn_check_all.py\<close>). The list comprehension over \<open>int\<close> is the one place that can raise.
\<close>

definition wildcard_octets :: "string \<Rightarrow> error + int list" where
  "wildcard_octets wc =
     (if wc = ''0'' then Inr [0, 0, 0, 0]
      else
        let parts = str_split wc (CHR ''.'');
            parts = take 4 (parts @ replicate 4 ''0'')
        in int_each parts)"

definition prefix_len_of :: "int list \<Rightarrow> int" where
  "prefix_len_of octets =
     (let mask_octets = map (\<lambda>b. 255 - b) octets
      in sum_list (map (\<lambda>b. str_count (py_bin b) (CHR ''1'')) mask_octets))"

definition wildcard_to_prefixlen :: "string \<Rightarrow> error + int" where
  "wildcard_to_prefixlen wc =
     (case wildcard_octets (str_strip wc) of
        Inl e \<Rightarrow> Inl e
      | Inr octets \<Rightarrow> Inr (prefix_len_of octets))"

text \<open>
  The inputs the converter is meant for: a part of the wildcard is an octet string when
  it is a non-empty string of decimal digits that \<open>int\<close> parses to a value from 0 to 255.
\<close>

definition is_octet_string :: "string \<Rightarrow> bool" where
  "is_octet_string p =
     (p \<noteq> [] \<and> list_all is_digit p \<and>
      (case py_int p of Inl e \<Rightarrow> False | Inr n \<Rightarrow> 0 \<le> n \<and> n \<le> 255))"

definition is_byte :: "int \<Rightarrow> bool" where
  "is_byte n = (0 \<le> n \<and> n \<le> 255)"

section \<open>The line rewriter\<close>

text \<open>
  The regular expressions of the scripts use literals, the classes \<open>\s\<close>, \<open>\d\<close>, \<open>\S\<close> and
  \<open>.\<close> under a greedy \<open>*\<close> or \<open>+\<close>, the anchor \<open>$\<close>, and named groups that are neither nested
  nor repeated. A pattern is the list of its groups in order (the name, empty for the text
  between two groups, and the tokens of the group).
\<close>

datatype cclass = Space | Digit | NonSpace | AnyChar

fun in_class :: "cclass \<Rightarrow> char \<Rightarrow> bool" where
  "in_class Space c = is_space c"
| "in_class Digit c = is_digit c"
| "in_class NonSpace c = (\<not> is_space c)"
| "in_class AnyChar c = (c \<noteq> LF)"

datatype token = Lit string | Rep cclass nat | Eol

text \<open>The first \<open>Some\<close> of a list of attempts: the backtracking order.\<close>

fun first_match :: "'a option list \<Rightarrow> 'a option" where
  "first_match [] = None"
| "first_match (None # rs) = first_match rs"
| "first_match (Some r # rs) = Some r"

text \<open>
  Matching a token list at the start of \<open>s\<close>, as Python's backtracking matcher does: the
  result is the text each token matched, for the first way of matching that succeeds.
  \<open>Rep c m\<close> is the class \<open>c\<close> repeated at least \<open>m\<close> times: it tries the longest run first and
  gives characters back one at a time. \<open>Eol\<close> is \<open>$\<close> without the multi-line flag: the end
  of the string, or just before a line feed that ends the string.
\<close>

fun match_tokens :: "token list \<Rightarrow> string \<Rightarrow> string list option" where
  "match_tokens [] s = Some []"
| "match_tokens (Lit l # ts) s =
     (if prefix l s then map_option ((#) l) (match_tokens ts (drop (length l) s)) else None)"
| "match_tokens (Eol # ts) s =
     (if s = [] \<or> s = [LF] then map_option ((#) []) (match_tokens ts s) else None)"
| "match_tokens (Rep c m # ts) s =
     first_match
       (map (\<lambda>k. map_option ((#) (take k s)) (match_tokens ts (drop k s)))
          (rev [m ..< Suc (length (takeWhile (in_class c) s))]))"

fun regroup :: "(string \<times> token list) list \<Rightarrow> string list \<Rightarrow> (string \<times> string) list" where
  "regroup [] segs = []"
| "regroup ((name, toks) # gs) segs =
     (name, concat (take (length toks) segs)) # regroup gs (drop (length toks) segs)"

text \<open>\<open>pattern.match(s)\<close>: \<open>None\<close>, or the text of every group.\<close>

definition re_match :: "(string \<times> token list) list \<Rightarrow> string \<Rightarrow> (string \<times> string) list option" where
  "re_match pat s = map_option (regroup pat) (match_tokens (concat (map snd pat)) s)"

text \<open>\<open>m.group(name)\<close>, for a name of the pattern.\<close>

definition group :: "(string \<times> string) list \<Rightarrow> string \<Rightarrow> string" where
  "group m name = (case map_of m name of Some t \<Rightarrow> t | None \<Rightarrow> [])"

text \<open>
  \<open>LINE_PATTERN\<close>:
  \<^verbatim>\<open>^(?P<prefix>\s*address\s+\d+\s+)(?P<ip>\d+\.\d+\.\d+\.\d+)\s+wildcard\s+(?P<wc>\S+)(?P<suffix>.*)$\<close>
  (the leading \<open>^\<close> is what \<open>match\<close> does anyway: it matches at the start of the string).
\<close>

definition LINE_PATTERN :: "(string \<times> token list) list" where
  "LINE_PATTERN =
     [(''prefix'', [Rep Space 0, Lit ''address'', Rep Space 1, Rep Digit 1, Rep Space 1]),
      (''ip'', [Rep Digit 1, Lit ''.'', Rep Digit 1, Lit ''.'', Rep Digit 1, Lit ''.'', Rep Digit 1]),
      ([], [Rep Space 1, Lit ''wildcard'', Rep Space 1]),
      (''wc'', [Rep NonSpace 1]),
      (''suffix'', [Rep AnyChar 0]),
      ([], [Eol])]"

text \<open>\<open>str(k)\<close> for an integer, as the f-string formats \<open>prefix_len\<close>.\<close>

fun dec_digits :: "nat \<Rightarrow> string" where
  "dec_digits n =
     (if n < 10 then [char_of (48 + n)] else dec_digits (n div 10) @ [char_of (48 + n mod 10)])"

declare dec_digits.simps [simp del]

definition py_str :: "int \<Rightarrow> string" where
  "py_str k = (if k < 0 then ''-'' else []) @ dec_digits (nat \<bar>k\<bar>)"

text \<open>
  \<open>convert_line\<close>: a line that does not match is returned as it is; on a match the
  exception of \<open>wildcard_to_prefixlen\<close>, if any, propagates.
\<close>

definition convert_line :: "string \<Rightarrow> error + string" where
  "convert_line line =
     (case re_match LINE_PATTERN (rstrip_newline line) of
        None \<Rightarrow> Inr line
      | Some m \<Rightarrow>
          (case wildcard_to_prefixlen (group m ''wc'') of
             Inl e \<Rightarrow> Inl e
           | Inr prefix_len \<Rightarrow>
               Inr (group m ''prefix'' @ group m ''ip'' @ ''/'' @ py_str prefix_len
                    @ group m ''suffix'' @ [LF])))"

section \<open>The block scanner\<close>

text \<open>
  \<open>extract_blocks_from_file\<close> (the same text in the extraction script and in
  \<open>gn_check_all.py\<close>). The function iterates over the lines of the file, each with its line
  terminator; the model takes that list of lines. The three local variables are the
  state of the loop.
\<close>

record scan_state =
  blocks :: "string list"
  current_block :: "string list"
  in_block :: bool

definition scan_init :: scan_state where
  "scan_init = \<lparr>blocks = [], current_block = [], in_block = False\<rparr>"

text \<open>The body of the loop, for one line.\<close>

definition scan_line :: "scan_state \<Rightarrow> string \<Rightarrow> scan_state" where
  "scan_line st line =
     (let stripped = str_strip line in
      if prefix ''ip address-set internationalgn'' stripped then
        (let st1 = (if in_block st \<and> current_block st \<noteq> []
                    then st\<lparr>blocks := blocks st @ [concat (current_block st)],
                            current_block := []\<rparr>
                    else st)
         in st1\<lparr>in_block := True, current_block := current_block st1 @ [line]\<rparr>)
      else if in_block st then
        (let st1 = st\<lparr>current_block := current_block st @ [line]\<rparr> in
         if stripped = ''#''
         then st1\<lparr>blocks := blocks st1 @ [concat (current_block st1)],
                  current_block := [], in_block := False\<rparr>
         else st1)
      else st)"

definition scan_lines :: "string list \<Rightarrow> scan_state" where
  "scan_lines lines = foldl scan_line scan_init lines"

text \<open>What follows the loop: a block still open at the end of the file is emitted too.\<close>

definition scan_finish :: "scan_state \<Rightarrow> string list" where
  "scan_finish st =
     (if in_block st \<and> current_block st \<noteq> []
      then blocks st @ [concat (current_block st)] else blocks st)"

definition extract_blocks_from_file :: "string list \<Rightarrow> string list" where
  "extract_blocks_from_file lines = scan_finish (scan_lines lines)"

text \<open>
  The invariant of the loop: inside a block the buffer starts with an opening line and
  holds no delimiter line; outside a block the buffer is empty.
\<close>

definition scan_inv :: "scan_state \<Rightarrow> bool" where
  "scan_inv st =
     (if in_block st
      then current_block st \<noteq> [] \<and>
           list_all (\<lambda>x. str_strip x \<noteq> ''#'') (current_block st) \<and>
           prefix ''ip address-set internationalgn'' (str_strip (hd (current_block st)))
      else current_block st = [])"

section \<open>The register loader\<close>

text \<open>
  \<open>normalize_net\<close> (the same text in the comparison script and in \<open>gn_check_all.py\<close>):
  \<open>re.sub(r"\s+", "", net)\<close> deletes every run of whitespace, that is every whitespace
  character. The argument may be \<open>None\<close>.
\<close>

definition normalize_net :: "string option \<Rightarrow> string" where
  "normalize_net net =
     (case net of None \<Rightarrow> [] | Some s \<Rightarrow> filter (\<lambda>c. \<not> is_space c) s)"

text \<open>
  The two columns of the sheet are read with \<open>dtype=str\<close>: a cell is a string, or NaN for
  an empty spreadsheet cell, here \<open>None\<close>. \<open>Series.ffill()\<close> replaces each NaN by the last
  value before it that is not NaN; NaNs before the first value stay.
\<close>

fun ffill_from :: "'a option \<Rightarrow> 'a option list \<Rightarrow> 'a option list" where
  "ffill_from prev [] = []"
| "ffill_from prev (None # xs) = prev # ffill_from prev xs"
| "ffill_from prev (Some v # xs) = Some v # ffill_from (Some v) xs"

definition ffill :: "'a option list \<Rightarrow> 'a option list" where
  "ffill col = ffill_from None col"

text \<open>\<open>str(cell)\<close>: a string is itself, NaN prints as \<open>nan\<close>.\<close>

definition str_cell :: "string option \<Rightarrow> string" where
  "str_cell cell = (case cell of None \<Rightarrow> ''nan'' | Some s \<Rightarrow> s)"

text \<open>
  \<open>s.splitlines()\<close>: the lines of \<open>s\<close> without their terminators. A line ends at a line
  feed, a carriage return (with the line feed after it, if any), a vertical tab, a form
  feed, one of the separators 0x1C to 0x1E, or a next line character (0x85). There is no
  empty last line after a final terminator.
\<close>

definition is_linebreak :: "char \<Rightarrow> bool" where
  "is_linebreak c = (c \<in> set [CHR 0x0A, CHR 0x0B, CHR 0x0C, CHR 0x0D,
       CHR 0x1C, CHR 0x1D, CHR 0x1E, CHR 0x85])"

fun splitlines_from :: "string \<Rightarrow> string \<Rightarrow> string list" where
  "splitlines_from cur [] = (if cur = [] then [] else [cur])"
| "splitlines_from cur [c] =
     (if is_linebreak c then [cur] else [cur @ [c]])"
| "splitlines_from cur (c # d # ds) =
     (if c = CR \<and> d = LF then cur # splitlines_from [] ds
      else if is_linebreak c then cur # splitlines_from [] (d # ds)
      else splitlines_from (cur @ [c]) (d # ds))"

definition str_splitlines :: "string \<Rightarrow> string list" where
  "str_splitlines s = splitlines_from [] s"

text \<open>
  The register is a \<open>defaultdict(set)\<close>, which is only indexed by key: a map from the
  carrier to its set of networks. \<open>excel_map[op].add(net)\<close> creates the entry when the
  carrier is new.
\<close>

type_synonym excel_map = "string \<rightharpoonup> string set"

definition add_net :: "excel_map \<Rightarrow> string \<Rightarrow> string \<Rightarrow> excel_map" where
  "add_net m carrier net =
     m(carrier \<mapsto> insert net (case m carrier of None \<Rightarrow> {} | Some nets \<Rightarrow> nets))"

text \<open>The body of the inner loop, over the lines of one cell.\<close>

definition load_part :: "string \<Rightarrow> excel_map \<Rightarrow> string \<Rightarrow> excel_map" where
  "load_part carrier m part =
     (let raw_net = str_strip part in
      if raw_net = [] then m
      else
        let norm_net = normalize_net (Some raw_net) in
        if norm_net \<noteq> [] then add_net m carrier norm_net else m)"

text \<open>The body of the outer loop, over the rows (the filled carrier cell, the net cell).\<close>

definition load_row :: "excel_map \<Rightarrow> string option \<times> string option \<Rightarrow> excel_map" where
  "load_row m row =
     (case snd row of
        None \<Rightarrow> m
      | Some gn_cell \<Rightarrow>
          let carrier = str_strip (str_cell (fst row)) in
          if carrier = [] then m
          else foldl (load_part carrier) m (str_splitlines gn_cell))"

text \<open>
  \<open>load_excel_gn_map\<close> (the same text in the comparison script and in
  \<open>gn_check_all.py\<close>), on the rows of the sheet: the carrier cell and the net cell of
  each row. Reading the file and choosing the two columns is left to the caller.
\<close>

definition load_excel_gn_map :: "(string option \<times> string option) list \<Rightarrow> excel_map" where
  "load_excel_gn_map rows =
     (let op_col = ffill (map fst rows);
          gn_col = map snd rows
      in foldl load_row Map.empty (zip op_col gn_col))"

section \<open>The reconciler\<close>

text \<open>
  The inventory \<open>txt_map\<close> is a dictionary that the comparison iterates over: it is
  modelled by its items in iteration order (the carrier and its set of networks), whose
  keys are distinct. A Python set is a \<open>set\<close>; the comparison collects the offending
  networks of a carrier in a list whose order depends on the iteration order of the set,
  but only tests that list for emptiness and sorts it, so the model keeps the set of its
  elements and sorts that (\<open>sorted_list_of_set\<close>). The results are dictionaries written
  by key: maps from the carrier to its sorted list.
\<close>

type_synonym txt_items = "(string \<times> string set) list"

record diff =
  diff_exist :: "string \<rightharpoonup> string list"
  diff_not_exist :: "string \<rightharpoonup> string list"

text \<open>
  The body of the loop of \<open>compare_and_output\<close> in \<open>gn_check_all.py\<close>, for one item of the
  inventory.
\<close>

definition compare_item :: "excel_map \<Rightarrow> diff \<Rightarrow> string \<times> string set \<Rightarrow> diff" where
  "compare_item excel_map d item =
     (let carrier = fst item; nets_in_txt = snd item in
      case excel_map carrier of
        None \<Rightarrow>
          d\<lparr>diff_not_exist := (diff_not_exist d)(carrier \<mapsto> sorted_list_of_set nets_in_txt)\<rparr>
      | Some excel_nets \<Rightarrow>
          let excel_nets_norm = (\<lambda>n. normalize_net (Some n)) ` excel_nets;
              diff_nets =
                Set.filter (\<lambda>net. normalize_net (Some net) \<notin> excel_nets_norm) nets_in_txt
          in if diff_nets \<noteq> {}
             then d\<lparr>diff_exist := (diff_exist d)(carrier \<mapsto> sorted_list_of_set diff_nets)\<rparr>
             else d)"

text \<open>
  \<open>compare_and_output\<close>, from the two loaded dictionaries to the two dictionaries it then
  writes to the report, section by section.
\<close>

definition compare_and_output :: "excel_map \<Rightarrow> txt_items \<Rightarrow> diff" where
  "compare_and_output excel_map txt_map =
     foldl (compare_item excel_map)
       \<lparr>diff_exist = Map.empty, diff_not_exist = Map.empty\<rparr> txt_map"

text \<open>
  The loop of \<open>main\<close> in the comparison script: one dictionary \<open>diff_result\<close>, and the
  register's own set for the carrier (\<open>excel_map.get(op, set())\<close>), not normalized again.
\<close>

definition main_item ::
  "excel_map \<Rightarrow> (string \<rightharpoonup> string list) \<Rightarrow> string \<times> string set \<Rightarrow> (string \<rightharpoonup> string list)" where
  "main_item excel_map diff_result item =
     (let carrier = fst item; nets_in_txt = snd item;
          excel_nets_norm = (case excel_map carrier of None \<Rightarrow> {} | Some nets \<Rightarrow> nets);
          diff_nets =
            Set.filter (\<lambda>net. normalize_net (Some net) \<notin> excel_nets_norm) nets_in_txt
      in if diff_nets \<noteq> {}
         then diff_result(carrier \<mapsto> sorted_list_of_set diff_nets)
         else diff_result)"

definition main_diff_result :: "excel_map \<Rightarrow> txt_items \<Rightarrow> (string \<rightharpoonup> string list)" where
  "main_diff_result excel_map txt_map = foldl (main_item excel_map) Map.empty txt_map"

section \<open>The inventory loader\<close>

text \<open>
  \<open>load_txt_gn_map\<close> (the same text in the comparison script and in \<open>gn_check_all.py\<close>)
  builds the inventory, a \<open>defaultdict(set)\<close> that the comparison iterates over: its
  items in insertion order. \<open>txt_map[op].add(net)\<close> adds to the set of a carrier that is
  there, and appends a new item for a carrier that is new.
\<close>

fun dict_add :: "txt_items \<Rightarrow> string \<Rightarrow> string \<Rightarrow> txt_items" where
  "dict_add [] carrier net = [(carrier, {net})]"
| "dict_add ((k, nets) # rest) carrier net =
     (if k = carrier then (k, insert net nets) # rest
      else (k, nets) # dict_add rest carrier net)"

text \<open>
  The body of the loop, for one line of the file. What \<open>pattern.search(line)\<close> finds is a
  parameter of the model: \<open>search line\<close> is \<open>None\<close> when the pattern is not found in the
  line, and the texts of its two groups otherwise. What is proved of the loader below
  holds for every such function, so for the pattern of the scripts.
\<close>

definition load_txt_line ::
  "(string \<Rightarrow> (string \<times> string) option) \<Rightarrow> txt_items \<Rightarrow> string \<Rightarrow> txt_items" where
  "load_txt_line search txt_map line =
     (case search line of
        None \<Rightarrow> txt_map
      | Some m \<Rightarrow>
          let net = str_strip (fst m); carrier = str_strip (snd m) in
          if carrier \<noteq> [] \<and> net \<noteq> [] then dict_add txt_map carrier net else txt_map)"

definition load_txt_gn_map ::
  "(string \<Rightarrow> (string \<times> string) option) \<Rightarrow> string list \<Rightarrow> txt_items" where
  "load_txt_gn_map search lines = foldl (load_txt_line search) [] lines"

text \<open>What the loader keeps: distinct carriers, and no empty set of networks.\<close>

definition dict_ok :: "txt_items \<Rightarrow> bool" where
  "dict_ok m = (distinct (map fst m) \<and> list_all (\<lambda>item. snd item \<noteq> {}) m)"

text \<open>
  A register whose networks are all in normal form, as \<open>load_excel_gn_map\<close> builds it.
\<close>

definition normalized_map :: "excel_map \<Rightarrow> bool" where
  "normalized_map m = (\<forall>c R n. m c = Some R \<and> n \<in> R \<longrightarrow> normalize_net (Some n) = n)"

text \<open>Invariants of the loop of \<open>compare_and_output\<close>, used in the proofs below.\<close>

definition lists_ok :: "(string \<rightharpoonup> string list) \<Rightarrow> bool" where
  "lists_ok m = (\<forall>c l. m c = Some l \<longrightarrow> sorted l \<and> distinct l)"

definition buckets_ok :: "excel_map \<Rightarrow> diff \<Rightarrow> bool" where
  "buckets_ok ex d = (dom (diff_exist d) \<subseteq> dom ex \<and> dom (diff_not_exist d) \<inter> dom ex = {})"

definition offending_only :: "excel_map \<Rightarrow> (string \<rightharpoonup> string list) \<Rightarrow> bool" where
  "offending_only ex m =
     (\<forall>c l x. m c = Some l \<and> x \<in> set l \<longrightarrow>
        (\<exists>R. ex c = Some R \<and> normalize_net (Some x) \<notin> (\<lambda>n. normalize_net (Some n)) ` R))"

section \<open>Properties of the wildcard mask converter\<close>

text \<open>
  C2: the converter gives 32 for "0.0.0.0" and for "0", 24 for "0.0.0.255", 29 for
  "0.0.0.7" and 0 for "255.255.255.255".
\<close>

theorem wildcard_to_prefixlen_examples:
  "wildcard_to_prefixlen ''0.0.0.0'' = Inr 32 \<and>
   wildcard_to_prefixlen ''0'' = Inr 32 \<and>
   wildcard_to_prefixlen ''0.0.0.255'' = Inr 24 \<and>
   wildcard_to_prefixlen ''0.0.0.7'' = Inr 29 \<and>
   wildcard_to_prefixlen ''255.255.255.255'' = Inr 0"
  by code_simp

lemma split_from_chars:
  "c \<in> set cur \<or> c \<in> set s \<Longrightarrow>
   c = sep \<or> (\<exists>p \<in> set (split_from sep cur s). c \<in> set p)"
proof (induction s arbitrary: cur)
  case Nil
  then show ?case by simp
next
  case (Cons x xs)
  show ?case
  proof (cases "x = sep")
    case True
    from Cons.prems consider "c \<in> set cur" | "c = x" | "c \<in> set xs" by auto
    then show ?thesis
    proof cases
      case 1
      with True show ?thesis by simp
    next
      case 2
      with True show ?thesis by simp
    next
      case 3
      then have "c \<in> set [] \<or> c \<in> set xs" by simp
      from Cons.IH [OF this] True show ?thesis by auto
    qed
  next
    case False
    from Cons.prems have "c \<in> set (cur @ [x]) \<or> c \<in> set xs" by auto
    from Cons.IH [OF this] False show ?thesis by simp
  qed
qed

lemma digit_not_space: "is_digit c \<Longrightarrow> \<not> is_space c"
  by (auto simp: is_digit_def is_space_def)

lemma strip_no_space: "list_all (\<lambda>c. \<not> is_space c) s \<Longrightarrow> str_strip s = s"
proof -
  assume a: "list_all (\<lambda>c. \<not> is_space c) s"
  then have "dropWhile is_space s = s"
    by (cases s) simp_all
  moreover from a have "dropWhile is_space (rev s) = rev s"
    by (cases "rev s") (auto simp: list_all_iff)
  ultimately show ?thesis
    by (simp add: str_strip_def str_lstrip_def str_rstrip_def)
qed

lemma octet_parts_no_space:
  assumes "list_all is_octet_string (str_split wc (CHR ''.''))"
  shows "list_all (\<lambda>c. \<not> is_space c) wc"
  unfolding list_all_iff
proof
  fix c assume "c \<in> set wc"
  then have "c \<in> set [] \<or> c \<in> set wc" by simp
  from split_from_chars [OF this, of "CHR ''.''"]
  have "c = CHR ''.'' \<or> (\<exists>p \<in> set (str_split wc (CHR ''.'')). c \<in> set p)"
    by (simp add: str_split_def)
  then show "\<not> is_space c"
  proof
    assume "c = CHR ''.''"
    then show ?thesis by (simp add: is_space_def)
  next
    assume "\<exists>p \<in> set (str_split wc (CHR ''.'')). c \<in> set p"
    then obtain p where "p \<in> set (str_split wc (CHR ''.''))" "c \<in> set p" by blast
    with assms have "is_digit c" by (auto simp: list_all_iff is_octet_string_def)
    then show ?thesis by (rule digit_not_space)
  qed
qed

lemma int_each_bytes:
  "list_all is_octet_string ps \<Longrightarrow>
   \<exists>os. int_each ps = Inr os \<and> length os = length ps \<and> list_all is_byte os"
proof (induction ps)
  case Nil
  then show ?case by simp
next
  case (Cons p ps)
  then obtain os where os: "int_each ps = Inr os" "length os = length ps" "list_all is_byte os"
    by auto
  from Cons.prems obtain n where n: "py_int p = Inr n" "is_byte n"
    by (auto simp: is_octet_string_def is_byte_def split: sum.splits)
  from os n show ?case by simp
qed

lemma bin_digits_length: "0 < k \<Longrightarrow> n < 2 ^ k \<Longrightarrow> length (bin_digits n) \<le> k"
proof (induction n arbitrary: k rule: bin_digits.induct)
  case (1 n)
  show ?case
  proof (cases "n < 2")
    case True
    with "1.prems" show ?thesis by (simp add: bin_digits.simps [of n])
  next
    case False
    with "1.prems" have k: "1 < k"
      by (cases "k = 1") auto
    then obtain j where j: "k = Suc j" "0 < j" by (cases k) auto
    with "1.prems" have "n div 2 < 2 ^ j" by auto
    from "1.IH" [OF False j(2) this] have "length (bin_digits (n div 2)) \<le> j" .
    with False j show ?thesis by (simp add: bin_digits.simps [of n])
  qed
qed

lemma count_ones_byte:
  assumes "is_byte b"
  shows "0 \<le> str_count (py_bin (255 - b)) (CHR ''1'') \<and>
         str_count (py_bin (255 - b)) (CHR ''1'') \<le> 8"
proof -
  from assms have r: "0 \<le> 255 - b" "nat (255 - b) < 2 ^ 8" by (auto simp: is_byte_def)
  have "length (bin_digits (nat (255 - b))) \<le> 8"
    by (rule bin_digits_length [OF _ r(2)]) simp
  moreover have "length (filter (\<lambda>x. x = CHR ''1'') (bin_digits (nat (255 - b))))
      \<le> length (bin_digits (nat (255 - b)))"
    by (rule length_filter_le)
  ultimately have "length (filter (\<lambda>x. x = CHR ''1'') (bin_digits (nat (255 - b)))) \<le> 8"
    by (rule order_trans [rotated])
  with r(1) show ?thesis by (simp add: str_count_def py_bin_def)
qed

lemma prefix_len_of_range:
  "list_all is_byte os \<Longrightarrow>
   0 \<le> prefix_len_of os \<and> prefix_len_of os \<le> 8 * int (length os)"
proof (induction os)
  case Nil
  then show ?case by (simp add: prefix_len_of_def)
next
  case (Cons b os)
  then have "is_byte b" and ih: "0 \<le> prefix_len_of os \<and> prefix_len_of os \<le> 8 * int (length os)"
    by simp_all
  from count_ones_byte [OF this(1)] ih show ?case
    by (simp add: prefix_len_of_def Let_def)
qed

lemma zero_octet: "is_octet_string ''0''"
  by code_simp

lemma padded_parts:
  assumes "list_all is_octet_string ps"
  shows "list_all is_octet_string (take 4 (ps @ replicate 4 ''0'')) \<and>
         length (take 4 (ps @ replicate 4 ''0'')) = 4"
proof -
  have "list_all is_octet_string (ps @ replicate 4 ''0'')"
    using assms zero_octet by (simp add: list_all_iff)
  then have "list_all is_octet_string (take 4 (ps @ replicate 4 ''0''))"
    by (auto simp: list_all_iff dest: in_set_takeD)
  then show ?thesis by simp
qed

text \<open>
  C8: for the wildcard "0", and for every wildcard that splits at "." into at most four
  strings of decimal digits that each parse to an integer from 0 to 255,
  \<open>wildcard_to_prefixlen\<close> does not raise and returns an integer from 0 to 32.
\<close>

theorem wildcard_to_prefixlen_range:
  assumes "wc = ''0'' \<or>
           (length (str_split wc (CHR ''.'')) \<le> 4 \<and>
            list_all is_octet_string (str_split wc (CHR ''.'')))"
  shows "\<exists>r. wildcard_to_prefixlen wc = Inr r \<and> 0 \<le> r \<and> r \<le> 32"
proof -
  have strip: "str_strip wc = wc"
    using assms
  proof
    assume "wc = ''0''"
    then show ?thesis by (simp add: strip_no_space is_space_def)
  next
    assume "length (str_split wc (CHR ''.'')) \<le> 4 \<and>
            list_all is_octet_string (str_split wc (CHR ''.''))"
    then show ?thesis by (simp add: strip_no_space octet_parts_no_space)
  qed
  have "\<exists>os. wildcard_octets wc = Inr os \<and> length os = 4 \<and> list_all is_byte os"
  proof (cases "wc = ''0''")
    case True
    then show ?thesis by (simp add: wildcard_octets_def is_byte_def)
  next
    case False
    with assms have "list_all is_octet_string (str_split wc (CHR ''.''))" by simp
    from padded_parts [OF this]
    have p: "list_all is_octet_string (take 4 (str_split wc (CHR ''.'') @ replicate 4 ''0''))"
      and l: "length (take 4 (str_split wc (CHR ''.'') @ replicate 4 ''0'')) = 4"
      by simp_all
    from int_each_bytes [OF p] l
    obtain os where "int_each (take 4 (str_split wc (CHR ''.'') @ replicate 4 ''0'')) = Inr os"
      "length os = 4" "list_all is_byte os"
      by auto
    with False show ?thesis by (simp add: wildcard_octets_def Let_def)
  qed
  then obtain os where os: "wildcard_octets wc = Inr os" "length os = 4" "list_all is_byte os"
    by blast
  from prefix_len_of_range [OF os(3)] os(2)
  have "0 \<le> prefix_len_of os \<and> prefix_len_of os \<le> 32" by simp
  with os(1) strip show ?thesis by (simp add: wildcard_to_prefixlen_def)
qed

theorem wildcard_to_prefixlen_range_witness:
  "length (str_split ''0.0.255'' (CHR ''.'')) \<le> 4 \<and>
   list_all is_octet_string (str_split ''0.0.255'' (CHR ''.'')) \<and>
   (\<exists>r. wildcard_to_prefixlen ''0.0.255'' = Inr r \<and> 0 \<le> r \<and> r \<le> 32) \<and>
   (\<exists>r. wildcard_to_prefixlen ''0'' = Inr r \<and> 0 \<le> r \<and> r \<le> 32)"
proof -
  have a: "length (str_split ''0.0.255'' (CHR ''.'')) \<le> 4" by code_simp
  have b: "list_all is_octet_string (str_split ''0.0.255'' (CHR ''.''))" by code_simp
  have c: "\<exists>r. wildcard_to_prefixlen ''0.0.255'' = Inr r \<and> 0 \<le> r \<and> r \<le> 32"
    by (rule wildcard_to_prefixlen_range [OF disjI2, OF conjI, OF a b])
  have d: "\<exists>r. wildcard_to_prefixlen ''0'' = Inr r \<and> 0 \<le> r \<and> r \<le> 32"
    by (rule wildcard_to_prefixlen_range [OF disjI1, OF refl])
  show ?thesis by (intro conjI) (rule a b c d)+
qed

section \<open>Properties of the line rewriter\<close>

text \<open>
  C4: the line "  address 10 1.2.3.4 wildcard 0.0.0.7 description ABC" with its line feed
  matches \<open>LINE_PATTERN\<close> with the groups shown, and is rewritten to
  "  address 10 1.2.3.4/29 description ABC" followed by one line feed: prefix and suffix
  are kept, the address and its wildcard become address/29.
\<close>

theorem convert_line_example:
  "re_match LINE_PATTERN ''  address 10 1.2.3.4 wildcard 0.0.0.7 description ABC'' =
     Some [(''prefix'', ''  address 10 ''), (''ip'', ''1.2.3.4''), ([], '' wildcard ''),
           (''wc'', ''0.0.0.7''), (''suffix'', '' description ABC''), ([], [])] \<and>
   convert_line (''  address 10 1.2.3.4 wildcard 0.0.0.7 description ABC'' @ [LF]) =
     Inr (''  address 10 1.2.3.4/29 description ABC'' @ [LF])"
  by code_simp

lemma convert_line_error_iff:
  "(convert_line line = Inl e) =
   (\<exists>m. re_match LINE_PATTERN (rstrip_newline line) = Some m \<and>
        wildcard_to_prefixlen (group m ''wc'') = Inl e)"
  by (auto simp: convert_line_def split: option.splits sum.splits)

text \<open>
  C10: the line "address 1 1.2.3.4 wildcard foo description X" matches \<open>LINE_PATTERN\<close>, its
  wildcard token is "foo", and \<open>convert_line\<close> raises \<open>ValueError\<close> on it (with or without
  the line feed) instead of returning a string. In general \<open>convert_line\<close> raises exactly
  on the lines that match and whose wildcard token \<open>wildcard_to_prefixlen\<close> cannot parse:
  the pass-through of the lines that do not match does not cover them.
\<close>

theorem convert_line_parse_error:
  "re_match LINE_PATTERN ''address 1 1.2.3.4 wildcard foo description X'' =
     Some [(''prefix'', ''address 1 ''), (''ip'', ''1.2.3.4''), ([], '' wildcard ''),
           (''wc'', ''foo''), (''suffix'', '' description X''), ([], [])] \<and>
   wildcard_to_prefixlen ''foo'' = Inl ValueError \<and>
   convert_line ''address 1 1.2.3.4 wildcard foo description X'' = Inl ValueError \<and>
   convert_line (''address 1 1.2.3.4 wildcard foo description X'' @ [LF]) = Inl ValueError \<and>
   (\<forall>line e. (convert_line line = Inl e) =
      (\<exists>m. re_match LINE_PATTERN (rstrip_newline line) = Some m \<and>
           wildcard_to_prefixlen (group m ''wc'') = Inl e))"
proof -
  have "re_match LINE_PATTERN ''address 1 1.2.3.4 wildcard foo description X'' =
     Some [(''prefix'', ''address 1 ''), (''ip'', ''1.2.3.4''), ([], '' wildcard ''),
           (''wc'', ''foo''), (''suffix'', '' description X''), ([], [])]"
    by code_simp
  moreover have "wildcard_to_prefixlen ''foo'' = Inl ValueError"
    by code_simp
  moreover have "convert_line ''address 1 1.2.3.4 wildcard foo description X'' = Inl ValueError"
    by code_simp
  moreover have
    "convert_line (''address 1 1.2.3.4 wildcard foo description X'' @ [LF]) = Inl ValueError"
    by code_simp
  moreover have "\<forall>line e. (convert_line line = Inl e) =
      (\<exists>m. re_match LINE_PATTERN (rstrip_newline line) = Some m \<and>
           wildcard_to_prefixlen (group m ''wc'') = Inl e)"
    by (simp add: convert_line_error_iff)
  ultimately show ?thesis by blast
qed

section \<open>Properties of the block scanner\<close>

lemma scan_line_open:
  "prefix ''ip address-set internationalgn'' (str_strip line) \<Longrightarrow> in_block st \<Longrightarrow> current_block st \<noteq> [] \<Longrightarrow>
   scan_line st line = st\<lparr>blocks := blocks st @ [concat (current_block st)], current_block := [line], in_block := True\<rparr>"
  by (simp add: scan_line_def Let_def)

lemma scan_inv_step: "scan_inv st \<Longrightarrow> scan_inv (scan_line st line)"
  by (auto simp: scan_inv_def scan_line_def Let_def split: if_splits)

lemma scan_inv_foldl: "scan_inv st \<Longrightarrow> scan_inv (foldl scan_line st ls)"
  by (induction ls arbitrary: st) (auto simp: scan_inv_step)

lemma scan_inv_lines: "scan_inv (scan_lines ls)"
  unfolding scan_lines_def by (rule scan_inv_foldl) (simp add: scan_inv_def scan_init_def)

lemma scan_line_blocks:
  "scan_line (st\<lparr>blocks := bs @ blocks st\<rparr>) line = (scan_line st line)\<lparr>blocks := bs @ blocks (scan_line st line)\<rparr>"
  by (simp add: scan_line_def Let_def)

lemma foldl_scan_blocks:
  "foldl scan_line (st\<lparr>blocks := bs @ blocks st\<rparr>) ls =
   (foldl scan_line st ls)\<lparr>blocks := bs @ blocks (foldl scan_line st ls)\<rparr>"
proof (induction ls arbitrary: st)
  case Nil
  then show ?case by simp
next
  case (Cons l ls)
  show ?case by (simp add: scan_line_blocks Cons.IH)
qed

lemma scan_finish_blocks:
  "scan_finish (st\<lparr>blocks := bs @ blocks st\<rparr>) = bs @ scan_finish st"
  by (simp add: scan_finish_def)


text \<open>
  C3: when the scan of the lines \<open>pre\<close> ends inside a block and the next line, trimmed,
  starts with "ip address-set internationalgn", then the buffer, which is not empty and
  holds no "#" line, is emitted as it is as the next block, the new buffer is that line
  alone, and the scan stays inside a block. Whatever lines follow, the result of the
  extraction is the blocks emitted before, then this buffer, then what the extraction
  gives from the opening line on.
\<close>

theorem reentry_rule:
  assumes "in_block (scan_lines pre)"
    and "prefix ''ip address-set internationalgn'' (str_strip line)"
  shows "scan_lines (pre @ [line]) =
           \<lparr>blocks = blocks (scan_lines pre) @ [concat (current_block (scan_lines pre))],
            current_block = [line], in_block = True\<rparr> \<and>
         current_block (scan_lines pre) \<noteq> [] \<and>
         list_all (\<lambda>x. str_strip x \<noteq> ''#'') (current_block (scan_lines pre)) \<and>
         extract_blocks_from_file (pre @ line # post) =
           blocks (scan_lines pre) @ concat (current_block (scan_lines pre))
             # extract_blocks_from_file (line # post)"
proof -
  let ?st = "scan_lines pre"
  let ?bs = "blocks ?st @ [concat (current_block ?st)]"
  have inv: "scan_inv ?st" by (rule scan_inv_lines)
  with assms(1) have ne: "current_block ?st \<noteq> []"
    and nd: "list_all (\<lambda>x. str_strip x \<noteq> ''#'') (current_block ?st)"
    by (simp_all add: scan_inv_def)
  have step: "scan_line ?st line =
      \<lparr>blocks = ?bs, current_block = [line], in_block = True\<rparr>"
    using scan_line_open [OF assms(2) assms(1) ne] by simp
  have one: "scan_lines (pre @ [line]) = scan_line ?st line"
    by (simp add: scan_lines_def)
  have fresh: "scan_line scan_init line = \<lparr>blocks = [], current_block = [line], in_block = True\<rparr>"
    using assms(2) by (simp add: scan_line_def scan_init_def Let_def)
  have shift: "scan_line ?st line =
      (scan_line scan_init line)\<lparr>blocks := ?bs @ blocks (scan_line scan_init line)\<rparr>"
    by (simp add: step fresh)
  have "extract_blocks_from_file (pre @ line # post) =
      scan_finish (foldl scan_line (scan_line ?st line) post)"
    by (simp add: extract_blocks_from_file_def scan_lines_def)
  also have "\<dots> = ?bs @ scan_finish (foldl scan_line (scan_line scan_init line) post)"
    by (simp only: shift foldl_scan_blocks scan_finish_blocks)
  also have "\<dots> = ?bs @ extract_blocks_from_file (line # post)"
    by (simp add: extract_blocks_from_file_def scan_lines_def)
  finally have ex: "extract_blocks_from_file (pre @ line # post) =
      blocks ?st @ concat (current_block ?st) # extract_blocks_from_file (line # post)"
    by simp
  from one step ne nd ex show ?thesis by simp
qed

lemma reentry_example_scan: "scan_lines [''ip address-set internationalgn a'' @ [LF], '' address 1 1.2.3.4 wildcard 0'' @ [LF]] =
   \<lparr>blocks = [], current_block = [''ip address-set internationalgn a'' @ [LF], '' address 1 1.2.3.4 wildcard 0'' @ [LF]], in_block = True\<rparr>"
  by code_simp

lemma reentry_example_open: "prefix ''ip address-set internationalgn'' (str_strip (''ip address-set internationalgn b'' @ [LF]))"
  by code_simp

theorem reentry_rule_witness:
  "in_block (scan_lines [''ip address-set internationalgn a'' @ [LF], '' address 1 1.2.3.4 wildcard 0'' @ [LF]]) \<and>
   prefix ''ip address-set internationalgn'' (str_strip (''ip address-set internationalgn b'' @ [LF])) \<and>
   extract_blocks_from_file
     ([''ip address-set internationalgn a'' @ [LF], '' address 1 1.2.3.4 wildcard 0'' @ [LF]]
       @ (''ip address-set internationalgn b'' @ [LF]) # [''#'' @ [LF], ''quit'' @ [LF]]) =
     [''ip address-set internationalgn a'' @ [LF] @ '' address 1 1.2.3.4 wildcard 0'' @ [LF],
      ''ip address-set internationalgn b'' @ [LF] @ ''#'' @ [LF]]"
proof -
  have a: "in_block (scan_lines [''ip address-set internationalgn a'' @ [LF], '' address 1 1.2.3.4 wildcard 0'' @ [LF]])"
    by code_simp
  have e: "extract_blocks_from_file [''ip address-set internationalgn b'' @ [LF], ''#'' @ [LF], ''quit'' @ [LF]] =
     [''ip address-set internationalgn b'' @ [LF] @ ''#'' @ [LF]]"
    by code_simp
  have c: "extract_blocks_from_file
     ([''ip address-set internationalgn a'' @ [LF], '' address 1 1.2.3.4 wildcard 0'' @ [LF]]
       @ (''ip address-set internationalgn b'' @ [LF]) # [''#'' @ [LF], ''quit'' @ [LF]]) =
     [''ip address-set internationalgn a'' @ [LF] @ '' address 1 1.2.3.4 wildcard 0'' @ [LF],
      ''ip address-set internationalgn b'' @ [LF] @ ''#'' @ [LF]]"
    using reentry_rule [OF a reentry_example_open, of "[''#'' @ [LF], ''quit'' @ [LF]]"]
    unfolding reentry_example_scan e by simp
  from a reentry_example_open c show ?thesis by blast
qed


section \<open>Properties of the reconciler\<close>

lemma scenario_offending:
  "Set.filter (\<lambda>net. normalize_net (Some net) \<notin> (\<lambda>n. normalize_net (Some n)) ` {''1.2.3.0/24''})
     {''1.2.3.0/24'', ''5.6.7.0/28''} = {''5.6.7.0/28''}"
  by code_simp

lemma compare_item_unknown:
  "ex c = None \<Longrightarrow>
   compare_item ex d (c, nets) =
     d\<lparr>diff_not_exist := (diff_not_exist d)(c \<mapsto> sorted_list_of_set nets)\<rparr>"
  by (simp add: compare_item_def)

lemma compare_item_known:
  "ex c = Some R \<Longrightarrow>
   Set.filter (\<lambda>net. normalize_net (Some net) \<notin> (\<lambda>n. normalize_net (Some n)) ` R) nets = F \<Longrightarrow>
   compare_item ex d (c, nets) =
     (if F \<noteq> {} then d\<lparr>diff_exist := (diff_exist d)(c \<mapsto> sorted_list_of_set F)\<rparr> else d)"
  unfolding compare_item_def Let_def by (simp only: fst_conv snd_conv option.case if_True if_False)

lemma scenario_ct_first: "compare_and_output [''CT'' \<mapsto> {''1.2.3.0/24''}]
     [(''CT'', {''1.2.3.0/24'', ''5.6.7.0/28''}), (''CU'', {''9.9.9.0/30''})] =
   \<lparr>diff_exist = [''CT'' \<mapsto> [''5.6.7.0/28'']], diff_not_exist = [''CU'' \<mapsto> [''9.9.9.0/30'']]\<rparr>"
proof -
  have ct: "[''CT'' \<mapsto> {''1.2.3.0/24''}] ''CT'' = Some {''1.2.3.0/24''}" by simp
  have cu: "[''CT'' \<mapsto> {''1.2.3.0/24''}] ''CU'' = None" by simp
  show ?thesis
    unfolding compare_and_output_def foldl.simps
      compare_item_known [where ex = "[''CT'' \<mapsto> {''1.2.3.0/24''}]" and c = "''CT''", OF ct scenario_offending]
      compare_item_unknown [where ex = "[''CT'' \<mapsto> {''1.2.3.0/24''}]" and c = "''CU''", OF cu]
    by simp
qed

lemma scenario_cu_first: "compare_and_output [''CT'' \<mapsto> {''1.2.3.0/24''}]
     [(''CU'', {''9.9.9.0/30''}), (''CT'', {''1.2.3.0/24'', ''5.6.7.0/28''})] =
   \<lparr>diff_exist = [''CT'' \<mapsto> [''5.6.7.0/28'']], diff_not_exist = [''CU'' \<mapsto> [''9.9.9.0/30'']]\<rparr>"
proof -
  have ct: "[''CT'' \<mapsto> {''1.2.3.0/24''}] ''CT'' = Some {''1.2.3.0/24''}" by simp
  have cu: "[''CT'' \<mapsto> {''1.2.3.0/24''}] ''CU'' = None" by simp
  show ?thesis
    unfolding compare_and_output_def foldl.simps
      compare_item_known [where ex = "[''CT'' \<mapsto> {''1.2.3.0/24''}]" and c = "''CT''", OF ct scenario_offending]
      compare_item_unknown [where ex = "[''CT'' \<mapsto> {''1.2.3.0/24''}]" and c = "''CU''", OF cu]
    by simp
qed

lemma set_sorted_list_subset: "set (sorted_list_of_set A) \<subseteq> A"
  by (cases "finite A") (simp_all add: sorted_list_of_set.fold_insort_key.infinite)

lemma sorted_sorted_list: "sorted (sorted_list_of_set A) \<and> distinct (sorted_list_of_set A)"
  by simp

lemma compare_item_sorted:
  "lists_ok (diff_exist d) \<Longrightarrow> lists_ok (diff_not_exist d) \<Longrightarrow>
   lists_ok (diff_exist (compare_item ex d item)) \<and> lists_ok (diff_not_exist (compare_item ex d item))"
  by (auto simp: compare_item_def Let_def lists_ok_def split: option.splits)

lemma foldl_compare_sorted:
  "lists_ok (diff_exist d) \<Longrightarrow> lists_ok (diff_not_exist d) \<Longrightarrow>
   lists_ok (diff_exist (foldl (compare_item ex) d items)) \<and>
   lists_ok (diff_not_exist (foldl (compare_item ex) d items))"
proof (induction items arbitrary: d)
  case Nil
  then show ?case by simp
next
  case (Cons item items)
  from compare_item_sorted [OF Cons.prems, of ex item]
  show ?case by (simp add: Cons.IH)
qed

lemma compare_sorted:
  "lists_ok (diff_exist (compare_and_output ex items)) \<and>
   lists_ok (diff_not_exist (compare_and_output ex items))"
  unfolding compare_and_output_def
  by (rule foldl_compare_sorted) (simp_all add: lists_ok_def)

lemma compare_item_dom:
  "dom (diff_exist (compare_item ex d item)) \<subseteq> insert (fst item) (dom (diff_exist d)) \<and>
   dom (diff_not_exist (compare_item ex d item)) \<subseteq> insert (fst item) (dom (diff_not_exist d))"
  by (auto simp: compare_item_def Let_def split: option.splits if_splits)

lemma foldl_compare_dom:
  "dom (diff_exist (foldl (compare_item ex) d items)) \<subseteq> dom (diff_exist d) \<union> fst ` set items \<and>
   dom (diff_not_exist (foldl (compare_item ex) d items)) \<subseteq> dom (diff_not_exist d) \<union> fst ` set items"
proof (induction items arbitrary: d)
  case Nil
  then show ?case by simp
next
  case (Cons item items)
  from Cons.IH [of "compare_item ex d item"] compare_item_dom [of ex d item]
  show ?case by (simp only: foldl_Cons list.set image_insert) blast
qed

lemma compare_item_buckets: "buckets_ok ex d \<Longrightarrow> buckets_ok ex (compare_item ex d item)"
  by (auto simp: buckets_ok_def compare_item_def Let_def split: option.splits if_splits)

lemma foldl_compare_buckets:
  "buckets_ok ex d \<Longrightarrow> buckets_ok ex (foldl (compare_item ex) d items)"
  by (induction items arbitrary: d) (simp_all add: compare_item_buckets)

lemma compare_buckets: "buckets_ok ex (compare_and_output ex items)"
  unfolding compare_and_output_def
  by (rule foldl_compare_buckets) (simp add: buckets_ok_def)

lemma compare_item_exist_origin:
  "c \<in> dom (diff_exist (compare_item ex d item)) \<Longrightarrow>
   c \<in> dom (diff_exist d) \<or>
   (c = fst item \<and> (\<exists>R. ex c = Some R \<and>
      Set.filter (\<lambda>net. normalize_net (Some net) \<notin> (\<lambda>n. normalize_net (Some n)) ` R) (snd item) \<noteq> {}))"
  by (auto simp: compare_item_def Let_def split: option.splits if_splits)

lemma foldl_compare_exist_origin:
  "c \<in> dom (diff_exist (foldl (compare_item ex) d items)) \<Longrightarrow>
   c \<in> dom (diff_exist d) \<or>
   (\<exists>nets R. (c, nets) \<in> set items \<and> ex c = Some R \<and>
      Set.filter (\<lambda>net. normalize_net (Some net) \<notin> (\<lambda>n. normalize_net (Some n)) ` R) nets \<noteq> {})"
proof (induction items arbitrary: d)
  case Nil
  then show ?case by simp
next
  case (Cons item items)
  from Cons.IH [of "compare_item ex d item"] Cons.prems
  have "c \<in> dom (diff_exist (compare_item ex d item)) \<or>
    (\<exists>nets R. (c, nets) \<in> set items \<and> ex c = Some R \<and>
      Set.filter (\<lambda>net. normalize_net (Some net) \<notin> (\<lambda>n. normalize_net (Some n)) ` R) nets \<noteq> {})"
    by simp
  then show ?case
  proof
    assume "c \<in> dom (diff_exist (compare_item ex d item))"
    from compare_item_exist_origin [OF this] show ?thesis
      by (metis list.set_intros(1) prod.collapse)
  next
    assume "\<exists>nets R. (c, nets) \<in> set items \<and> ex c = Some R \<and>
      Set.filter (\<lambda>net. normalize_net (Some net) \<notin> (\<lambda>n. normalize_net (Some n)) ` R) nets \<noteq> {}"
    then show ?thesis by (meson list.set_intros)
  qed
qed

lemma distinct_keys_same_value:
  "distinct (map fst items) \<Longrightarrow> (c, a) \<in> set items \<Longrightarrow> (c, b) \<in> set items \<Longrightarrow> a = b"
  by (rule eq_key_imp_eq_value)

lemma compare_item_offending:
  assumes "offending_only ex (diff_exist d)"
  shows "offending_only ex (diff_exist (compare_item ex d item))"
proof (cases "ex (fst item)")
  case None
  with assms show ?thesis by (simp add: compare_item_def)
next
  case (Some R)
  define F where
    "F = Set.filter (\<lambda>net. normalize_net (Some net) \<notin> (\<lambda>n. normalize_net (Some n)) ` R) (snd item)"
  have sub: "set (sorted_list_of_set F) \<subseteq> F" by (rule set_sorted_list_subset)
  have mem: "x \<in> F \<Longrightarrow> normalize_net (Some x) \<notin> (\<lambda>n. normalize_net (Some n)) ` R" for x
    unfolding F_def by simp
  have eq: "compare_item ex d item =
     (if F \<noteq> {} then d\<lparr>diff_exist := (diff_exist d)(fst item \<mapsto> sorted_list_of_set F)\<rparr> else d)"
    using compare_item_known [where ex = ex and c = "fst item" and nets = "snd item" and d = d,
        OF Some F_def [symmetric]]
    by simp
  show ?thesis
  proof (cases "F = {}")
    case True
    with eq assms show ?thesis by simp
  next
    case False
    with eq have eq': "diff_exist (compare_item ex d item) =
        (diff_exist d)(fst item \<mapsto> sorted_list_of_set F)" by simp
    show ?thesis
      unfolding offending_only_def eq'
    proof (intro allI impI)
      fix c l x
      assume h: "((diff_exist d)(fst item \<mapsto> sorted_list_of_set F)) c = Some l \<and> x \<in> set l"
      show "\<exists>R. ex c = Some R \<and> normalize_net (Some x) \<notin> (\<lambda>n. normalize_net (Some n)) ` R"
      proof (cases "c = fst item")
        case True
        with h have "x \<in> set (sorted_list_of_set F)" by auto
        with sub have "x \<in> F" by blast
        from mem [OF this] Some True show ?thesis by blast
      next
        case False
        with h have "diff_exist d c = Some l \<and> x \<in> set l" by simp
        with assms show ?thesis unfolding offending_only_def by blast
      qed
    qed
  qed
qed

lemma foldl_compare_offending:
  "offending_only ex (diff_exist d) \<Longrightarrow>
   offending_only ex (diff_exist (foldl (compare_item ex) d items))"
  by (induction items arbitrary: d) (simp_all add: compare_item_offending)

lemma compare_offending: "offending_only ex (diff_exist (compare_and_output ex items))"
  unfolding compare_and_output_def
  by (rule foldl_compare_offending) (simp add: offending_only_def)

text \<open>
  C1: with the register "CT": {"1.2.3.0/24"} and the inventory "CT": {"1.2.3.0/24",
  "5.6.7.0/28"}, "CU": {"9.9.9.0/30"} (in either iteration order), the comparison gives
  "CT": ["5.6.7.0/28"] for the carriers of the register and "CU": ["9.9.9.0/30"] for the
  carriers missing from it. For every register and inventory, every list of the report
  is sorted and without repetition.
\<close>

theorem reconcile_scenario:
  "compare_and_output [''CT'' \<mapsto> {''1.2.3.0/24''}]
     [(''CT'', {''1.2.3.0/24'', ''5.6.7.0/28''}), (''CU'', {''9.9.9.0/30''})] =
     \<lparr>diff_exist = [''CT'' \<mapsto> [''5.6.7.0/28'']],
      diff_not_exist = [''CU'' \<mapsto> [''9.9.9.0/30'']]\<rparr> \<and>
   compare_and_output [''CT'' \<mapsto> {''1.2.3.0/24''}]
     [(''CU'', {''9.9.9.0/30''}), (''CT'', {''1.2.3.0/24'', ''5.6.7.0/28''})] =
     \<lparr>diff_exist = [''CT'' \<mapsto> [''5.6.7.0/28'']],
      diff_not_exist = [''CU'' \<mapsto> [''9.9.9.0/30'']]\<rparr> \<and>
   (\<forall>excel_map txt_map c l.
      diff_exist (compare_and_output excel_map txt_map) c = Some l \<or>
      diff_not_exist (compare_and_output excel_map txt_map) c = Some l \<longrightarrow>
      sorted l \<and> distinct l)"
proof -
  have "\<forall>excel_map txt_map c l.
      diff_exist (compare_and_output excel_map txt_map) c = Some l \<or>
      diff_not_exist (compare_and_output excel_map txt_map) c = Some l \<longrightarrow>
      sorted l \<and> distinct l"
    using compare_sorted unfolding lists_ok_def by blast
  with scenario_ct_first scenario_cu_first show ?thesis by blast
qed

theorem reconcile_scenario_witness:
  "diff_not_exist (compare_and_output [''CT'' \<mapsto> {''1.2.3.0/24''}]
      [(''CU'', {''9.9.9.0/30'', ''10.0.0.0/8'', ''9.9.10.0/30''})]) ''CU'' =
     Some [''10.0.0.0/8'', ''9.9.10.0/30'', ''9.9.9.0/30''] \<and>
   sorted [''10.0.0.0/8'', ''9.9.10.0/30'', ''9.9.9.0/30''] \<and>
   distinct [''10.0.0.0/8'', ''9.9.10.0/30'', ''9.9.9.0/30'']"
proof -
  have v: "diff_not_exist (compare_and_output [''CT'' \<mapsto> {''1.2.3.0/24''}]
      [(''CU'', {''9.9.9.0/30'', ''10.0.0.0/8'', ''9.9.10.0/30''})]) ''CU'' =
     Some [''10.0.0.0/8'', ''9.9.10.0/30'', ''9.9.9.0/30'']"
    by code_simp
  from reconcile_scenario v
  have "sorted [''10.0.0.0/8'', ''9.9.10.0/30'', ''9.9.9.0/30''] \<and>
        distinct [''10.0.0.0/8'', ''9.9.10.0/30'', ''9.9.9.0/30'']"
    by blast
  with v show ?thesis by blast
qed

text \<open>
  C5: for every register and every inventory (a dictionary: distinct keys), every
  carrier of the report is a carrier of the inventory, so a carrier of the register
  alone is never reported; no carrier is in both parts of the report; and a carrier of
  the inventory that the register knows, all of whose networks normalize into the
  normalized networks of the register for it, is in neither part.
\<close>

theorem report_carriers:
  assumes "distinct (map fst txt_map)"
  shows "dom (diff_exist (compare_and_output excel_map txt_map)) \<union>
           dom (diff_not_exist (compare_and_output excel_map txt_map)) \<subseteq> fst ` set txt_map \<and>
         dom (diff_exist (compare_and_output excel_map txt_map)) \<inter>
           dom (diff_not_exist (compare_and_output excel_map txt_map)) = {} \<and>
         (\<forall>c nets R.
            (c, nets) \<in> set txt_map \<and> excel_map c = Some R \<and>
            (\<forall>net \<in> nets. normalize_net (Some net) \<in> (\<lambda>n. normalize_net (Some n)) ` R) \<longrightarrow>
            c \<notin> dom (diff_exist (compare_and_output excel_map txt_map)) \<and>
            c \<notin> dom (diff_not_exist (compare_and_output excel_map txt_map)))"
proof -
  let ?r = "compare_and_output excel_map txt_map"
  have a: "dom (diff_exist ?r) \<union> dom (diff_not_exist ?r) \<subseteq> fst ` set txt_map"
    using foldl_compare_dom [of excel_map "\<lparr>diff_exist = Map.empty, diff_not_exist = Map.empty\<rparr>" txt_map]
    by (simp add: compare_and_output_def)
  have ok: "buckets_ok excel_map ?r" by (rule compare_buckets)
  then have b: "dom (diff_exist ?r) \<inter> dom (diff_not_exist ?r) = {}"
    unfolding buckets_ok_def by blast
  have c: "c \<notin> dom (diff_exist ?r) \<and> c \<notin> dom (diff_not_exist ?r)"
    if h: "(c, nets) \<in> set txt_map" "excel_map c = Some R"
      "\<forall>net \<in> nets. normalize_net (Some net) \<in> (\<lambda>n. normalize_net (Some n)) ` R"
    for c nets R
  proof
    show "c \<notin> dom (diff_exist ?r)"
    proof
      assume "c \<in> dom (diff_exist ?r)"
      then have "c \<in> dom (diff_exist (foldl (compare_item excel_map)
          \<lparr>diff_exist = Map.empty, diff_not_exist = Map.empty\<rparr> txt_map))"
        by (simp add: compare_and_output_def)
      from foldl_compare_exist_origin [OF this]
      obtain nets' R' where o: "(c, nets') \<in> set txt_map" "excel_map c = Some R'"
        "Set.filter (\<lambda>net. normalize_net (Some net) \<notin> (\<lambda>n. normalize_net (Some n)) ` R') nets' \<noteq> {}"
        by auto
      from distinct_keys_same_value [OF assms h(1) o(1)] have "nets' = nets" by simp
      moreover from h(2) o(2) have "R' = R" by simp
      ultimately show False using o(3) h(3) by auto
    qed
    from ok h(2) show "c \<notin> dom (diff_not_exist ?r)"
      unfolding buckets_ok_def by blast
  qed
  from a b c show ?thesis by blast
qed

theorem report_carriers_witness:
  "distinct (map fst [(''CT'', {''1.2.3.0 /24''}), (''CU'', {''9.9.9.0/30''})]) \<and>
   ''CM'' \<notin> dom (diff_exist (compare_and_output
       [''CT'' \<mapsto> {''1.2.3.0/24''}, ''CM'' \<mapsto> {''7.7.7.0/24''}]
       [(''CT'', {''1.2.3.0 /24''}), (''CU'', {''9.9.9.0/30''})])) \<and>
   ''CM'' \<notin> dom (diff_not_exist (compare_and_output
       [''CT'' \<mapsto> {''1.2.3.0/24''}, ''CM'' \<mapsto> {''7.7.7.0/24''}]
       [(''CT'', {''1.2.3.0 /24''}), (''CU'', {''9.9.9.0/30''})])) \<and>
   ''CT'' \<notin> dom (diff_exist (compare_and_output
       [''CT'' \<mapsto> {''1.2.3.0/24''}, ''CM'' \<mapsto> {''7.7.7.0/24''}]
       [(''CT'', {''1.2.3.0 /24''}), (''CU'', {''9.9.9.0/30''})])) \<and>
   ''CT'' \<notin> dom (diff_not_exist (compare_and_output
       [''CT'' \<mapsto> {''1.2.3.0/24''}, ''CM'' \<mapsto> {''7.7.7.0/24''}]
       [(''CT'', {''1.2.3.0 /24''}), (''CU'', {''9.9.9.0/30''})]))"
proof -
  let ?ex = "[''CT'' \<mapsto> {''1.2.3.0/24''}, ''CM'' \<mapsto> {''7.7.7.0/24''}]"
  let ?items = "[(''CT'', {''1.2.3.0 /24''}), (''CU'', {''9.9.9.0/30''})]"
  have d: "distinct (map fst ?items)" by simp
  have k: "?ex ''CT'' = Some {''1.2.3.0/24''}" by simp
  have n: "\<forall>net \<in> {''1.2.3.0 /24''}.
      normalize_net (Some net) \<in> (\<lambda>n. normalize_net (Some n)) ` {''1.2.3.0/24''}"
    by code_simp
  have m: "(''CT'', {''1.2.3.0 /24''}) \<in> set ?items" by simp
  have cm: "''CM'' \<notin> fst ` set ?items" by simp
  from report_carriers [OF d, of ?ex] m k n cm d show ?thesis by blast
qed

text \<open>
  C6: "1.2.3.0 /24" and "1.2.3.0/24" differ and have the same normal form; and for every
  register and inventory, a network whose normal form is that of a network the register
  has for the carrier is not in the carrier's list of mismatches, and the carrier is not
  among the unknown ones.
\<close>

theorem normalization_equivalence:
  "normalize_net (Some ''1.2.3.0 /24'') = normalize_net (Some ''1.2.3.0/24'') \<and>
   ''1.2.3.0 /24'' \<noteq> ''1.2.3.0/24'' \<and>
   (\<forall>excel_map txt_map c R reg net.
      excel_map c = Some R \<and> reg \<in> R \<and>
      normalize_net (Some net) = normalize_net (Some reg) \<longrightarrow>
      diff_not_exist (compare_and_output excel_map txt_map) c = None \<and>
      (\<forall>l. diff_exist (compare_and_output excel_map txt_map) c = Some l \<longrightarrow> net \<notin> set l))"
proof -
  have a: "normalize_net (Some ''1.2.3.0 /24'') = normalize_net (Some ''1.2.3.0/24'')"
    by code_simp
  have b: "''1.2.3.0 /24'' \<noteq> ''1.2.3.0/24''" by simp
  have c: "diff_not_exist (compare_and_output excel_map txt_map) c = None \<and>
      (\<forall>l. diff_exist (compare_and_output excel_map txt_map) c = Some l \<longrightarrow> net \<notin> set l)"
    if h: "excel_map c = Some R" "reg \<in> R" "normalize_net (Some net) = normalize_net (Some reg)"
    for excel_map txt_map c R reg net
  proof
    from compare_buckets [of excel_map txt_map] h(1)
    show "diff_not_exist (compare_and_output excel_map txt_map) c = None"
      unfolding buckets_ok_def by blast
    show "\<forall>l. diff_exist (compare_and_output excel_map txt_map) c = Some l \<longrightarrow> net \<notin> set l"
    proof (intro allI impI notI)
      fix l
      assume "diff_exist (compare_and_output excel_map txt_map) c = Some l" "net \<in> set l"
      with compare_offending [of excel_map txt_map]
      obtain R' where "excel_map c = Some R'"
        "normalize_net (Some net) \<notin> (\<lambda>n. normalize_net (Some n)) ` R'"
        unfolding offending_only_def by blast
      with h show False by auto
    qed
  qed
  from a b c show ?thesis by blast
qed

theorem normalization_equivalence_witness:
  "diff_exist (compare_and_output [''CT'' \<mapsto> {''1.2.3.0/24''}]
      [(''CT'', {''1.2.3.0 /24'', ''5.6.7.0/28''})]) ''CT'' = Some [''5.6.7.0/28''] \<and>
   diff_not_exist (compare_and_output [''CT'' \<mapsto> {''1.2.3.0/24''}]
      [(''CT'', {''1.2.3.0 /24'', ''5.6.7.0/28''})]) ''CT'' = None \<and>
   ''1.2.3.0 /24'' \<notin> set [''5.6.7.0/28'']"
proof -
  let ?ex = "[''CT'' \<mapsto> {''1.2.3.0/24''}]"
  have k: "?ex ''CT'' = Some {''1.2.3.0/24''}" by simp
  have r: "''1.2.3.0/24'' \<in> {''1.2.3.0/24''}" by simp
  have v: "diff_exist (compare_and_output [''CT'' \<mapsto> {''1.2.3.0/24''}]
      [(''CT'', {''1.2.3.0 /24'', ''5.6.7.0/28''})]) ''CT'' = Some [''5.6.7.0/28'']"
    by code_simp
  from normalization_equivalence k r v show ?thesis by blast
qed


section \<open>Properties of the register loader\<close>

lemma ffill_from_length: "length (ffill_from p xs) = length xs"
  by (induction p xs rule: ffill_from.induct) simp_all

lemma ffill_from_hd:
  "ffill_from p (x # xs) ! 0 = (case x of None \<Rightarrow> p | Some v \<Rightarrow> Some v)"
  by (cases x) simp_all

lemma ffill_from_Suc:
  "ffill_from p (x # xs) ! Suc i =
     ffill_from (case x of None \<Rightarrow> p | Some v \<Rightarrow> Some v) xs ! i"
  by (cases x) simp_all

lemma ffill_from_nth:
  "i < length xs \<Longrightarrow>
   ffill_from p xs ! i =
     (case xs ! i of
        Some v \<Rightarrow> Some v
      | None \<Rightarrow> if i = 0 then p else ffill_from p xs ! (i - 1))"
proof (induction xs arbitrary: p i)
  case Nil
  then show ?case by simp
next
  case (Cons x xs)
  show ?case
  proof (cases i)
    case 0
    then show ?thesis by (cases x) simp_all
  next
    case (Suc i')
    with Cons.prems have lt: "i' < length xs" by simp
    let ?p = "case x of None \<Rightarrow> p | Some v \<Rightarrow> Some v"
    have e3: "(if i' = 0 then ?p else ffill_from ?p xs ! (i' - 1)) = ffill_from p (x # xs) ! i'"
    proof (cases i')
      case 0
      then show ?thesis by (cases x) simp_all
    next
      case (Suc k)
      then show ?thesis by (simp only: ffill_from_Suc) simp
    qed
    have "ffill_from p (x # xs) ! Suc i' =
        (case xs ! i' of Some v \<Rightarrow> Some v | None \<Rightarrow> ffill_from p (x # xs) ! i')"
      unfolding ffill_from_Suc Cons.IH [OF lt] e3 ..
    then show ?thesis unfolding Suc by (simp split: option.split)
  qed
qed

lemma ffill_nearest:
  assumes "j \<le> i" "i < length col" "col ! j = Some v"
    and "\<forall>k. j < k \<and> k \<le> i \<longrightarrow> col ! k = None"
  shows "ffill col ! i = Some v"
  using assms
proof (induction i)
  case 0
  then show ?case by (simp add: ffill_def ffill_from_nth)
next
  case (Suc i)
  show ?case
  proof (cases "j = Suc i")
    case True
    with Suc.prems show ?thesis by (simp add: ffill_def ffill_from_nth)
  next
    case False
    with Suc.prems have a: "j \<le> i" "i < length col" "col ! Suc i = None"
      "\<forall>k. j < k \<and> k \<le> i \<longrightarrow> col ! k = None"
      by auto
    from Suc.IH [OF a(1) a(2) Suc.prems(3) a(4)] have "ffill col ! i = Some v" .
    with a(3) Suc.prems(2) show ?thesis by (simp add: ffill_def ffill_from_nth)
  qed
qed

lemma ffill_none:
  assumes "i < length col" "\<forall>k. k \<le> i \<longrightarrow> col ! k = None"
  shows "ffill col ! i = None"
  using assms
proof (induction i)
  case 0
  then show ?case by (simp add: ffill_def ffill_from_nth)
next
  case (Suc i)
  from Suc.prems have a: "i < length col" "\<forall>k. k \<le> i \<longrightarrow> col ! k = None" "col ! Suc i = None"
    by auto
  from Suc.IH [OF a(1) a(2)] have "ffill col ! i = None" .
  with a(3) Suc.prems(1) show ?case by (simp add: ffill_def ffill_from_nth)
qed

lemma load_row_no_net: "load_row m (c, None) = m"
  by (simp add: load_row_def)

lemma splitlines_empty: "str_splitlines [] = []"
  by (simp add: str_splitlines_def)

lemma load_row_empty_net: "load_row m (c, Some []) = m"
  by (simp add: load_row_def Let_def splitlines_empty)

lemma load_row_no_carrier: "str_strip (str_cell c) = [] \<Longrightarrow> load_row m (c, g) = m"
  by (simp add: load_row_def Let_def split: option.splits)

lemma foldl_load_row_filter:
  "foldl load_row m rows =
   foldl load_row m
     (filter (\<lambda>row. snd row \<noteq> None \<and> str_strip (str_cell (fst row)) \<noteq> []) rows)"
proof (induction rows arbitrary: m)
  case Nil
  then show ?case by simp
next
  case (Cons row rows)
  obtain c g where row: "row = (c, g)" by (cases row)
  show ?case
  proof (cases "g \<noteq> None \<and> str_strip (str_cell c) \<noteq> []")
    case True
    then show ?thesis by (simp add: row Cons.IH)
  next
    case False
    then have "load_row m (c, g) = m"
      using load_row_no_net load_row_no_carrier by (cases g) auto
    with False show ?thesis by (simp add: row Cons.IH)
  qed
qed

lemma normalize_net_idem: "normalize_net (Some (normalize_net (Some s))) = normalize_net (Some s)"
  by (simp add: normalize_net_def)

lemma add_net_normalized:
  "normalized_map m \<Longrightarrow> normalize_net (Some n) = n \<Longrightarrow> normalized_map (add_net m c n)"
  unfolding normalized_map_def add_net_def
  by (auto split: option.splits if_splits)

lemma load_part_normalized: "normalized_map m \<Longrightarrow> normalized_map (load_part c m part)"
  by (simp add: load_part_def Let_def add_net_normalized normalize_net_idem)

lemma foldl_load_part_normalized:
  "normalized_map m \<Longrightarrow> normalized_map (foldl (load_part c) m parts)"
  by (induction parts arbitrary: m) (simp_all add: load_part_normalized)

lemma load_row_normalized: "normalized_map m \<Longrightarrow> normalized_map (load_row m row)"
  by (simp add: load_row_def Let_def foldl_load_part_normalized split: option.splits)

lemma foldl_load_row_normalized:
  "normalized_map m \<Longrightarrow> normalized_map (foldl load_row m rows)"
  by (induction rows arbitrary: m) (simp_all add: load_row_normalized)

lemma load_excel_gn_map_normalized: "normalized_map (load_excel_gn_map rows)"
  unfolding load_excel_gn_map_def Let_def
  by (rule foldl_load_row_normalized) (simp add: normalized_map_def)

lemma example_splitlines: "str_splitlines ''1.1.1.0/24'' = [''1.1.1.0/24''] \<and> str_splitlines ''2.2.2.0/24'' = [''2.2.2.0/24'']"
  by code_simp
lemma example_strip: "str_strip ''1.1.1.0/24'' = ''1.1.1.0/24'' \<and> str_strip ''2.2.2.0/24'' = ''2.2.2.0/24'' \<and> str_strip ''CT'' = ''CT''"
  by code_simp
lemma example_normalize: "normalize_net (Some ''1.1.1.0/24'') = ''1.1.1.0/24'' \<and> normalize_net (Some ''2.2.2.0/24'') = ''2.2.2.0/24''"
  by code_simp

lemma load_example:
  "load_excel_gn_map [(Some ''CT'', Some ''1.1.1.0/24''), (None, Some ''2.2.2.0/24'')] =
     [''CT'' \<mapsto> {''1.1.1.0/24'', ''2.2.2.0/24''}]"
  by (simp add: load_excel_gn_map_def ffill_def load_row_def load_part_def add_net_def Let_def
      str_cell_def example_splitlines example_strip example_normalize insert_commute)

lemma load_example2:
  "load_excel_gn_map [(Some ''CT'', None), (None, Some ''2.2.2.0/24'')] =
     [''CT'' \<mapsto> {''2.2.2.0/24''}]"
  by (simp add: load_excel_gn_map_def ffill_def load_row_def load_part_def add_net_def Let_def
      str_cell_def example_splitlines example_strip example_normalize insert_commute)

text \<open>
  X1: the rows ("CT", "1.1.1.0/24"), (NaN, "2.2.2.0/24") give both networks to "CT". In
  general the filled carrier of a row is the value of the nearest row at or above it
  that has one; a row without a net cell, with an empty net cell, or whose filled carrier
  is a string that is empty after trimming leaves the register as it is; and the loader's
  result is that of its loop over the rows that remain after the forward fill when the
  rows without a net cell and the rows whose filled carrier is a string that is empty
  after trimming are removed.
\<close>

theorem forward_fill:
  "load_excel_gn_map [(Some ''CT'', Some ''1.1.1.0/24''), (None, Some ''2.2.2.0/24'')] =
     [''CT'' \<mapsto> {''1.1.1.0/24'', ''2.2.2.0/24''}] \<and>
   (\<forall>(col :: string option list) i j v.
      j \<le> i \<and> i < length col \<and> col ! j = Some v \<and>
      (\<forall>k. j < k \<and> k \<le> i \<longrightarrow> col ! k = None) \<longrightarrow>
      ffill col ! i = Some v) \<and>
   (\<forall>m c. load_row m (c, None) = m) \<and>
   (\<forall>m c. load_row m (c, Some []) = m) \<and>
   (\<forall>m c g. str_strip (str_cell c) = [] \<longrightarrow> load_row m (c, g) = m) \<and>
   (\<forall>rows. load_excel_gn_map rows =
      foldl load_row Map.empty
        (filter (\<lambda>row. snd row \<noteq> None \<and> str_strip (str_cell (fst row)) \<noteq> [])
           (zip (ffill (map fst rows)) (map snd rows))))"
proof -
  have a: "\<forall>(col :: string option list) i j v.
      j \<le> i \<and> i < length col \<and> col ! j = Some v \<and>
      (\<forall>k. j < k \<and> k \<le> i \<longrightarrow> col ! k = None) \<longrightarrow>
      ffill col ! i = Some v"
  proof (intro allI impI)
    fix col :: "string option list" and i j v
    assume "j \<le> i \<and> i < length col \<and> col ! j = Some v \<and>
      (\<forall>k. j < k \<and> k \<le> i \<longrightarrow> col ! k = None)"
    then have "j \<le> i" "i < length col" "col ! j = Some v"
      "\<forall>k. j < k \<and> k \<le> i \<longrightarrow> col ! k = None"
      by simp_all
    then show "ffill col ! i = Some v" by (rule ffill_nearest)
  qed
  have b: "\<forall>m c. load_row m (c, None) = m"
    by (simp add: load_row_no_net)
  have c: "\<forall>m c. load_row m (c, Some []) = m"
    by (simp add: load_row_empty_net)
  have d: "\<forall>m c g. str_strip (str_cell c) = [] \<longrightarrow> load_row m (c, g) = m"
    by (simp add: load_row_no_carrier)
  have e: "\<forall>rows. load_excel_gn_map rows =
      foldl load_row Map.empty
        (filter (\<lambda>row. snd row \<noteq> None \<and> str_strip (str_cell (fst row)) \<noteq> [])
           (zip (ffill (map fst rows)) (map snd rows)))"
    unfolding load_excel_gn_map_def Let_def
    by (intro allI) (rule foldl_load_row_filter)
  show ?thesis
    by (intro conjI) (rule load_example a b c d e)+
qed

theorem forward_fill_witness:
  "ffill [Some ''CT'', None, Some ''  '', None] ! 1 = Some ''CT'' \<and>
   ffill [Some ''CT'', None, Some ''  '', None] ! 3 = Some ''  '' \<and>
   str_strip (str_cell (Some ''  '')) = [] \<and>
   load_excel_gn_map
     [(Some ''CT'', None), (None, Some ''2.2.2.0/24''),
      (Some ''  '', Some ''3.3.3.0/24''), (None, Some ''4.4.4.0/24'')] =
     [''CT'' \<mapsto> {''2.2.2.0/24''}]"
proof -
  let ?col = "[Some ''CT'', None, Some ''  '', None]"
  note fill = forward_fill [THEN conjunct2, THEN conjunct1, rule_format]
  have g: "ffill col ! i = Some v"
    if "j \<le> i" "i < length col" "col ! j = Some v"
      "\<forall>k. j < k \<and> k \<le> i \<longrightarrow> col ! k = None"
    for col :: "string option list" and i j v
    using that by (intro fill [of j i col v] conjI)
  have k1: "\<forall>k. (0::nat) < k \<and> k \<le> 1 \<longrightarrow> ?col ! k = None"
  proof (intro allI impI)
    fix k :: nat assume "0 < k \<and> k \<le> 1"
    then have "k = 1" by simp
    then show "?col ! k = None" by simp
  qed
  have k3: "\<forall>k. (2::nat) < k \<and> k \<le> 3 \<longrightarrow> ?col ! k = None"
  proof (intro allI impI)
    fix k :: nat assume "2 < k \<and> k \<le> 3"
    then have "k = 3" by simp
    then show "?col ! k = None" by (simp add: numeral_3_eq_3)
  qed
  have a: "ffill ?col ! 1 = Some ''CT''"
    by (rule g [of 0 1 ?col "''CT''", OF _ _ _ k1]) simp_all
  have b: "ffill ?col ! 3 = Some ''  ''"
    by (rule g [of 2 3 ?col "''  ''", OF _ _ _ k3]) (simp_all add: numeral_2_eq_2)
  have c: "str_strip (str_cell (Some ''  '')) = []" by code_simp
  have f: "filter (\<lambda>row. snd row \<noteq> None \<and> str_strip (str_cell (fst row)) \<noteq> [])
           (zip (ffill (map fst [(Some ''CT'', None), (None, Some ''2.2.2.0/24''),
      (Some ''  '', Some ''3.3.3.0/24''), (None, Some ''4.4.4.0/24'')])) (map snd [(Some ''CT'', None), (None, Some ''2.2.2.0/24''),
      (Some ''  '', Some ''3.3.3.0/24''), (None, Some ''4.4.4.0/24'')])) =
      [(Some ''CT'', Some ''2.2.2.0/24'')]"
    by code_simp
  have e: "load_excel_gn_map
     [(Some ''CT'', None), (None, Some ''2.2.2.0/24''),
      (Some ''  '', Some ''3.3.3.0/24''), (None, Some ''4.4.4.0/24'')] =
    foldl load_row Map.empty [(Some ''CT'', Some ''2.2.2.0/24'')]"
    by (simp only: f forward_fill [THEN conjunct2, THEN conjunct2, THEN conjunct2,
          THEN conjunct2, THEN conjunct2, rule_format])
  have "foldl load_row Map.empty [(Some ''CT'', Some ''2.2.2.0/24'')] = [''CT'' \<mapsto> {''2.2.2.0/24''}]"
    by (simp add: load_row_def load_part_def add_net_def Let_def
      str_cell_def example_splitlines example_strip example_normalize)
  with e have l: "load_excel_gn_map
     [(Some ''CT'', None), (None, Some ''2.2.2.0/24''),
      (Some ''  '', Some ''3.3.3.0/24''), (None, Some ''4.4.4.0/24'')] =
     [''CT'' \<mapsto> {''2.2.2.0/24''}]"
    by (rule trans)
  show ?thesis
    by (intro conjI) (rule a b c l)+
qed


text \<open>
  C7: a row whose carrier cell is missing, with no carrier in any row above it, is not
  skipped. The forward fill leaves its carrier NaN, \<open>str\<close> turns NaN into "nan", which is
  not empty, and the networks of the row are stored under the carrier "nan": the rows
  (NaN, "1.1.1.0/24"), ("CT", "2.2.2.0/24") give "1.1.1.0/24" to "nan".
\<close>

theorem forward_fill_nan_carrier:
  "ffill [None, Some ''CT''] = [None, Some ''CT''] \<and>
   str_strip (str_cell None) = ''nan'' \<and>
   load_excel_gn_map [(None, Some ''1.1.1.0/24''), (Some ''CT'', Some ''2.2.2.0/24'')] ''nan'' =
     Some {''1.1.1.0/24''} \<and>
   load_excel_gn_map [(None, Some ''1.1.1.0/24''), (Some ''CT'', Some ''2.2.2.0/24'')] ''CT'' =
     Some {''2.2.2.0/24''}"
  by code_simp

section \<open>The two comparison loops\<close>

lemma filter_nothing: "Set.filter (\<lambda>net. normalize_net (Some net) \<notin> {}) nets = nets"
  by auto

lemma main_item_agrees:
  assumes norm: "normalized_map ex" and ne: "snd item \<noteq> {}" and ok: "buckets_ok ex d"
  shows "main_item ex (diff_exist d ++ diff_not_exist d) item =
         diff_exist (compare_item ex d item) ++ diff_not_exist (compare_item ex d item)"
proof (cases "ex (fst item)")
  case None
  have "main_item ex (diff_exist d ++ diff_not_exist d) item =
      (diff_exist d ++ diff_not_exist d)(fst item \<mapsto> sorted_list_of_set (snd item))"
    using ne by (simp add: main_item_def Let_def None filter_nothing)
  moreover have "compare_item ex d item =
      d\<lparr>diff_not_exist := (diff_not_exist d)(fst item \<mapsto> sorted_list_of_set (snd item))\<rparr>"
    by (simp add: compare_item_def Let_def None)
  ultimately show ?thesis by simp
next
  case (Some R)
  define F where
    "F = Set.filter (\<lambda>net. normalize_net (Some net) \<notin> (\<lambda>n. normalize_net (Some n)) ` R) (snd item)"
  from norm Some have "\<forall>n \<in> R. normalize_net (Some n) = n"
    unfolding normalized_map_def by blast
  then have img: "(\<lambda>n. normalize_net (Some n)) ` R = R" by force
  have F': "Set.filter (\<lambda>net. normalize_net (Some net) \<notin> R) (snd item) = F"
    unfolding F_def img ..
  have m: "main_item ex (diff_exist d ++ diff_not_exist d) item =
      (if F \<noteq> {} then (diff_exist d ++ diff_not_exist d)(fst item \<mapsto> sorted_list_of_set F)
       else diff_exist d ++ diff_not_exist d)"
    unfolding main_item_def Let_def Some option.case F' ..
  have c: "compare_item ex d item =
     (if F \<noteq> {} then d\<lparr>diff_exist := (diff_exist d)(fst item \<mapsto> sorted_list_of_set F)\<rparr> else d)"
    using compare_item_known [where ex = ex and c = "fst item" and nets = "snd item" and d = d,
        OF Some F_def [symmetric]]
    by simp
  from ok Some have "fst item \<notin> dom (diff_not_exist d)"
    unfolding buckets_ok_def by blast
  then have "(diff_exist d)(fst item \<mapsto> v) ++ diff_not_exist d =
      (diff_exist d ++ diff_not_exist d)(fst item \<mapsto> v)" for v
    by (rule map_add_upd_left)
  with m c show ?thesis by simp
qed

lemma foldl_agrees:
  assumes "normalized_map ex" and "list_all (\<lambda>item. snd item \<noteq> {}) items" and "buckets_ok ex d"
  shows "foldl (main_item ex) (diff_exist d ++ diff_not_exist d) items =
         diff_exist (foldl (compare_item ex) d items) ++
         diff_not_exist (foldl (compare_item ex) d items)"
  using assms
proof (induction items arbitrary: d)
  case Nil
  then show ?case by simp
next
  case (Cons item items)
  from Cons.prems have ne: "snd item \<noteq> {}" and rest: "list_all (\<lambda>item. snd item \<noteq> {}) items"
    by simp_all
  from compare_item_buckets [OF Cons.prems(3)] have ok': "buckets_ok ex (compare_item ex d item)" .
  show ?case
    by (simp only: foldl_Cons main_item_agrees [OF Cons.prems(1) ne Cons.prems(3)]
        Cons.IH [OF Cons.prems(1) rest ok'])
qed

lemma dict_add_nonempty:
  "list_all (\<lambda>item. snd item \<noteq> {}) m \<Longrightarrow>
   list_all (\<lambda>item. snd item \<noteq> {}) (dict_add m carrier net)"
  by (induction m carrier net rule: dict_add.induct) simp_all

lemma dict_add_keys:
  "set (map fst (dict_add m carrier net)) = insert carrier (set (map fst m))"
  by (induction m carrier net rule: dict_add.induct) auto

lemma dict_add_distinct:
  "distinct (map fst m) \<Longrightarrow> distinct (map fst (dict_add m carrier net))"
proof (induction m carrier net rule: dict_add.induct)
  case (1 carrier net)
  then show ?case by simp
next
  case (2 k nets rest carrier net)
  show ?case
  proof (cases "k = carrier")
    case True
    with "2.prems" show ?thesis by simp
  next
    case False
    from "2.prems" have d: "distinct (map fst rest)" and n: "k \<notin> set (map fst rest)"
      by simp_all
    from "2.IH" [OF False d] have "distinct (map fst (dict_add rest carrier net))" .
    moreover from n False have "k \<notin> set (map fst (dict_add rest carrier net))"
      by (simp only: dict_add_keys) simp
    ultimately show ?thesis using False by simp
  qed
qed

lemma load_txt_line_ok: "dict_ok m \<Longrightarrow> dict_ok (load_txt_line search m line)"
  by (simp add: load_txt_line_def Let_def dict_ok_def dict_add_nonempty dict_add_distinct
      split: option.splits)

lemma foldl_load_txt_line_ok:
  "dict_ok m \<Longrightarrow> dict_ok (foldl (load_txt_line search) m lines)"
  by (induction lines arbitrary: m) (simp_all add: load_txt_line_ok)

lemma load_txt_gn_map_ok: "dict_ok (load_txt_gn_map search lines)"
  unfolding load_txt_gn_map_def
  by (rule foldl_load_txt_line_ok) (simp add: dict_ok_def)

lemma agree_general:
  assumes "normalized_map ex" and "list_all (\<lambda>item. snd item \<noteq> {}) items"
  shows "main_diff_result ex items =
      diff_exist (compare_and_output ex items) ++ diff_not_exist (compare_and_output ex items)"
  using foldl_agrees [OF assms, of "\<lparr>diff_exist = Map.empty, diff_not_exist = Map.empty\<rparr>"]
  by (simp add: main_diff_result_def compare_and_output_def buckets_ok_def)

text \<open>
  C9: for every register that \<open>load_excel_gn_map\<close> builds and every inventory that
  \<open>load_txt_gn_map\<close> builds, the dictionary of \<open>main\<close> in the comparison script is the union
  of the two dictionaries of \<open>compare_and_output\<close>, carrier by carrier with the same sorted
  lists; those two dictionaries never share a carrier. The same holds for every register
  whose networks are in normal form and every inventory without an empty set of
  networks, which is what the two loaders guarantee.
\<close>

theorem implementations_agree:
  "main_diff_result (load_excel_gn_map rows) (load_txt_gn_map search lines) =
     diff_exist (compare_and_output (load_excel_gn_map rows) (load_txt_gn_map search lines)) ++
     diff_not_exist (compare_and_output (load_excel_gn_map rows) (load_txt_gn_map search lines)) \<and>
   dom (diff_exist (compare_and_output excel_map txt_map)) \<inter>
     dom (diff_not_exist (compare_and_output excel_map txt_map)) = {} \<and>
   (list_all (\<lambda>item. snd item \<noteq> {}) txt_map \<and>
    (\<forall>c R n. excel_map c = Some R \<and> n \<in> R \<longrightarrow> normalize_net (Some n) = n) \<longrightarrow>
    main_diff_result excel_map txt_map =
      diff_exist (compare_and_output excel_map txt_map) ++
      diff_not_exist (compare_and_output excel_map txt_map))"
proof -
  have ne: "list_all (\<lambda>item. snd item \<noteq> {}) (load_txt_gn_map search lines)"
    using load_txt_gn_map_ok [of search lines] by (simp add: dict_ok_def)
  have a: "main_diff_result (load_excel_gn_map rows) (load_txt_gn_map search lines) =
     diff_exist (compare_and_output (load_excel_gn_map rows) (load_txt_gn_map search lines)) ++
     diff_not_exist (compare_and_output (load_excel_gn_map rows) (load_txt_gn_map search lines))"
    by (rule agree_general [OF load_excel_gn_map_normalized ne])
  have b: "dom (diff_exist (compare_and_output excel_map txt_map)) \<inter>
           dom (diff_not_exist (compare_and_output excel_map txt_map)) = {}"
    using compare_buckets [of excel_map txt_map] unfolding buckets_ok_def by blast
  have c: "list_all (\<lambda>item. snd item \<noteq> {}) txt_map \<and>
    (\<forall>c R n. excel_map c = Some R \<and> n \<in> R \<longrightarrow> normalize_net (Some n) = n) \<longrightarrow>
    main_diff_result excel_map txt_map =
      diff_exist (compare_and_output excel_map txt_map) ++
      diff_not_exist (compare_and_output excel_map txt_map)"
  proof
    assume h: "list_all (\<lambda>item. snd item \<noteq> {}) txt_map \<and>
      (\<forall>c R n. excel_map c = Some R \<and> n \<in> R \<longrightarrow> normalize_net (Some n) = n)"
    then have "normalized_map excel_map" unfolding normalized_map_def by simp
    from agree_general [OF this] h show "main_diff_result excel_map txt_map =
      diff_exist (compare_and_output excel_map txt_map) ++
      diff_not_exist (compare_and_output excel_map txt_map)" by simp
  qed
  show ?thesis by (intro conjI) (rule a b c)+
qed

theorem implementations_agree_witness:
  "list_all (\<lambda>item. snd item \<noteq> {})
     [(''CT'', {''1.2.3.0/24'', ''5.6.7.0/28''}), (''CU'', {''9.9.9.0/30''})] \<and>
   main_diff_result [''CT'' \<mapsto> {''1.2.3.0/24''}]
     [(''CT'', {''1.2.3.0/24'', ''5.6.7.0/28''}), (''CU'', {''9.9.9.0/30''})] =
   diff_exist (compare_and_output [''CT'' \<mapsto> {''1.2.3.0/24''}]
     [(''CT'', {''1.2.3.0/24'', ''5.6.7.0/28''}), (''CU'', {''9.9.9.0/30''})]) ++
   diff_not_exist (compare_and_output [''CT'' \<mapsto> {''1.2.3.0/24''}]
     [(''CT'', {''1.2.3.0/24'', ''5.6.7.0/28''}), (''CU'', {''9.9.9.0/30''})]) \<and>
   main_diff_result [''CT'' \<mapsto> {''1.2.3.0/24''}]
     [(''CT'', {''1.2.3.0/24'', ''5.6.7.0/28''}), (''CU'', {''9.9.9.0/30''})] ''CT'' =
     Some [''5.6.7.0/28''] \<and>
   main_diff_result [''CT'' \<mapsto> {''1.2.3.0/24''}]
     [(''CT'', {''1.2.3.0/24'', ''5.6.7.0/28''}), (''CU'', {''9.9.9.0/30''})] ''CU'' =
     Some [''9.9.9.0/30''] \<and>
   load_txt_gn_map
     (\<lambda>line. if line = ''x'' then None
              else if line = ''a'' then Some (''1.2.3.0/24'', ''CT'')
              else if line = ''b'' then Some (''9.9.9.0/30'', ''CU'')
              else Some (''5.6.7.0/28'', ''CT''))
     [''a'', ''x'', ''b'', ''c'', ''a''] =
     [(''CT'', {''1.2.3.0/24'', ''5.6.7.0/28''}), (''CU'', {''9.9.9.0/30''})]"
proof -
  let ?ex = "[''CT'' \<mapsto> {''1.2.3.0/24''}]"
  let ?items = "[(''CT'', {''1.2.3.0/24'', ''5.6.7.0/28''}), (''CU'', {''9.9.9.0/30''})]"
  have h: "list_all (\<lambda>item. snd item \<noteq> {}) ?items" by simp
  have nn: "normalize_net (Some ''1.2.3.0/24'') = ''1.2.3.0/24''" by code_simp
  have n: "\<forall>c R n. ?ex c = Some R \<and> n \<in> R \<longrightarrow> normalize_net (Some n) = n"
  proof (intro allI impI)
    fix c R n
    assume a: "?ex c = Some R \<and> n \<in> R"
    then have "R = {''1.2.3.0/24''}" by (auto split: if_splits)
    with a have "n = ''1.2.3.0/24''" by simp
    with nn show "normalize_net (Some n) = n" by simp
  qed
  have e: "main_diff_result ?ex ?items =
      diff_exist (compare_and_output ?ex ?items) ++ diff_not_exist (compare_and_output ?ex ?items)"
    by (rule implementations_agree [where excel_map = ?ex and txt_map = ?items,
          THEN conjunct2, THEN conjunct2, THEN mp, OF conjI, OF h n])
  have v1: "main_diff_result ?ex ?items ''CT'' = Some [''5.6.7.0/28'']" by code_simp
  have v2: "main_diff_result ?ex ?items ''CU'' = Some [''9.9.9.0/30'']" by code_simp
  have l: "load_txt_gn_map
     (\<lambda>line. if line = ''x'' then None
              else if line = ''a'' then Some (''1.2.3.0/24'', ''CT'')
              else if line = ''b'' then Some (''9.9.9.0/30'', ''CU'')
              else Some (''5.6.7.0/28'', ''CT''))
     [''a'', ''x'', ''b'', ''c'', ''a''] = ?items"
    by code_simp
  show ?thesis
    by (intro conjI) (rule h e v1 v2 l)+
qed

end
